theory Spec2Isabelle
  imports Main "HOL-Library.Word"
begin

unbundle bit_operations_syntax

section \<open>Strings\<close>

text \<open>
  A Python \<open>str\<close> is a sequence of code points. It is modelled as \<open>string\<close>, each
  \<open>char\<close> standing for one code point in the range U+0000 .. U+00FF, so that
  \<open>length\<close> counts what Python's \<open>len\<close> counts.
\<close>

definition is_space :: "char \<Rightarrow> bool" where
  \<comment> \<open>\<open>str.isspace\<close> on one code point below U+0100.\<close>
  "is_space c = (of_char c \<in> {9, 10, 11, 12, 13, 28, 29, 30, 31, 32, 133, 160 :: nat})"

definition lstrip :: "string \<Rightarrow> string" where
  "lstrip s = dropWhile is_space s"

definition rstrip :: "string \<Rightarrow> string" where
  "rstrip s = rev (dropWhile is_space (rev s))"

definition strip :: "string \<Rightarrow> string" where
  \<comment> \<open>\<open>s.strip()\<close>\<close>
  "strip s = rstrip (lstrip s)"

definition rstrip_nl :: "string \<Rightarrow> string" where
  \<comment> \<open>\<open>s.rstrip('\n')\<close>\<close>
  "rstrip_nl s = rev (dropWhile (\<lambda>c. c = CHR 0x0A) (rev s))"

definition lstrip_hash :: "string \<Rightarrow> string" where
  \<comment> \<open>\<open>s.lstrip('#')\<close>\<close>
  "lstrip_hash s = dropWhile (\<lambda>c. c = CHR ''#'') s"

definition startswith :: "string \<Rightarrow> string \<Rightarrow> bool" where
  \<comment> \<open>\<open>s.startswith(p)\<close>\<close>
  "startswith s p = (take (length p) s = p)"

fun join :: "string \<Rightarrow> string list \<Rightarrow> string" where
  \<comment> \<open>\<open>sep.join(xs)\<close>\<close>
  "join sep [] = []"
| "join sep [x] = x"
| "join sep (x # y # ys) = x @ sep @ join sep (y # ys)"

definition digit_char :: "nat \<Rightarrow> char" where
  "digit_char d = char_of (48 + d)"

function str_nat :: "nat \<Rightarrow> string" where
  \<comment> \<open>\<open>str(n)\<close> of a non-negative integer, as the f-strings render \<open>level\<close>.\<close>
  "str_nat n = (if n < 10 then [digit_char n] else str_nat (n div 10) @ [digit_char (n mod 10)])"
  by pat_completeness auto
termination
  by (relation "measure id") auto

declare str_nat.simps [simp del]

section \<open>MD5 (\<open>hashlib.md5\<close>, after RFC 1321)\<close>

text \<open>
  \<open>hashlib\<close> is Python's standard library; the digest is modelled from RFC 1321 on
  32-bit words, the message being the UTF-8 encoding of the text.
\<close>

type_synonym byte = "8 word"

definition utf8_char :: "char \<Rightarrow> byte list" where
  \<comment> \<open>one byte below U+0080, two bytes from U+0080 to U+00FF\<close>
  "utf8_char c = (let n = (of_char c :: nat) in
     if n < 128 then [of_nat n] else [of_nat (192 + n div 64), of_nat (128 + n mod 64)])"

definition utf8_encode :: "string \<Rightarrow> byte list" where
  \<comment> \<open>\<open>text.encode('utf-8')\<close>\<close>
  "utf8_encode s = concat (map utf8_char s)"

definition md5_s :: "nat list" where
  "md5_s = [7, 12, 17, 22, 7, 12, 17, 22, 7, 12, 17, 22, 7, 12, 17, 22,
            5, 9, 14, 20, 5, 9, 14, 20, 5, 9, 14, 20, 5, 9, 14, 20,
            4, 11, 16, 23, 4, 11, 16, 23, 4, 11, 16, 23, 4, 11, 16, 23,
            6, 10, 15, 21, 6, 10, 15, 21, 6, 10, 15, 21, 6, 10, 15, 21]"

definition md5_K :: "32 word list" where
  "md5_K = [0xd76aa478, 0xe8c7b756, 0x242070db, 0xc1bdceee,
            0xf57c0faf, 0x4787c62a, 0xa8304613, 0xfd469501,
            0x698098d8, 0x8b44f7af, 0xffff5bb1, 0x895cd7be,
            0x6b901122, 0xfd987193, 0xa679438e, 0x49b40821,
            0xf61e2562, 0xc040b340, 0x265e5a51, 0xe9b6c7aa,
            0xd62f105d, 0x02441453, 0xd8a1e681, 0xe7d3fbc8,
            0x21e1cde6, 0xc33707d6, 0xf4d50d87, 0x455a14ed,
            0xa9e3e905, 0xfcefa3f8, 0x676f02d9, 0x8d2a4c8a,
            0xfffa3942, 0x8771f681, 0x6d9d6122, 0xfde5380c,
            0xa4beea44, 0x4bdecfa9, 0xf6bb4b60, 0xbebfbc70,
            0x289b7ec6, 0xeaa127fa, 0xd4ef3085, 0x04881d05,
            0xd9d4d039, 0xe6db99e5, 0x1fa27cf8, 0xc4ac5665,
            0xf4292244, 0x432aff97, 0xab9423a7, 0xfc93a039,
            0x655b59c3, 0x8f0ccc92, 0xffeff47d, 0x85845dd1,
            0x6fa87e4f, 0xfe2ce6e0, 0xa3014314, 0x4e0811a1,
            0xf7537e82, 0xbd3af235, 0x2ad7d2bb, 0xeb86d391]"

definition rotl32 :: "32 word \<Rightarrow> nat \<Rightarrow> 32 word" where
  "rotl32 w n = (push_bit n w) OR (drop_bit (32 - n) w)"

definition md5_pad :: "byte list \<Rightarrow> byte list" where
  "md5_pad msg = msg @ [0x80] @ replicate ((119 - length msg mod 64) mod 64) 0
     @ map (\<lambda>j. ucast (drop_bit (8 * j) (of_nat (8 * length msg) :: 64 word))) [0..<8]"

definition le_word :: "byte list \<Rightarrow> 32 word" where
  \<comment> \<open>four bytes, least significant first\<close>
  "le_word bs = foldr (\<lambda>b w. ucast b OR push_bit 8 w) (take 4 bs) 0"

definition block_words :: "byte list \<Rightarrow> 32 word list" where
  "block_words blk = map (\<lambda>j. le_word (drop (4 * j) blk)) [0..<16]"

type_synonym md5_state = "32 word \<times> 32 word \<times> 32 word \<times> 32 word"

definition md5_round :: "32 word list \<Rightarrow> md5_state \<Rightarrow> nat \<Rightarrow> md5_state" where
  "md5_round M st i = (case st of (A, B, C, D) \<Rightarrow>
     (let F = (if i < 16 then (B AND C) OR (NOT B AND D)
               else if i < 32 then (D AND B) OR (NOT D AND C)
               else if i < 48 then B XOR C XOR D
               else C XOR (B OR NOT D));
          g = (if i < 16 then i
               else if i < 32 then (5 * i + 1) mod 16
               else if i < 48 then (3 * i + 5) mod 16
               else (7 * i) mod 16);
          F' = F + A + md5_K ! i + M ! g
      in (D, B + rotl32 F' (md5_s ! i), B, C)))"

definition md5_block :: "md5_state \<Rightarrow> byte list \<Rightarrow> md5_state" where
  "md5_block st blk = (case st of (a0, b0, c0, d0) \<Rightarrow>
     (case foldl (md5_round (block_words blk)) st [0..<64] of (A, B, C, D) \<Rightarrow>
        (a0 + A, b0 + B, c0 + C, d0 + D)))"

function md5_blocks :: "md5_state \<Rightarrow> byte list \<Rightarrow> md5_state" where
  "md5_blocks st bs = (if bs = [] then st else md5_blocks (md5_block st (take 64 bs)) (drop 64 bs))"
  by pat_completeness auto
termination
  by (relation "measure (\<lambda>(st, bs). length bs)") auto

declare md5_blocks.simps [simp del]

definition word_bytes :: "32 word \<Rightarrow> byte list" where
  "word_bytes w = map (\<lambda>j. ucast (drop_bit (8 * j) w)) [0..<4]"

definition md5_digest :: "byte list \<Rightarrow> byte list" where
  "md5_digest msg =
     (case md5_blocks (0x67452301, 0xefcdab89, 0x98badcfe, 0x10325476) (md5_pad msg) of
        (a, b, c, d) \<Rightarrow> word_bytes a @ word_bytes b @ word_bytes c @ word_bytes d)"

definition hex_digit :: "nat \<Rightarrow> char" where
  "hex_digit n = ''0123456789abcdef'' ! (n mod 16)"

definition hex_byte :: "byte \<Rightarrow> string" where
  "hex_byte b = [hex_digit (unat b div 16), hex_digit (unat b mod 16)]"

definition hexdigest :: "byte list \<Rightarrow> string" where
  "hexdigest bs = concat (map hex_byte bs)"

definition hex_chars :: "char set" where
  "hex_chars = set ''0123456789abcdef''"

definition md5_hash :: "string \<Rightarrow> string" where
  \<comment> \<open>\<open>hashlib.md5(text.encode('utf-8')).hexdigest()\<close>\<close>
  "md5_hash text = hexdigest (md5_digest (utf8_encode text))"

section \<open>Inline formatting\<close>

definition remove_c_chars :: "string \<Rightarrow> string" where
  \<comment> \<open>\<open>re.sub(r'[cC]', '', text)\<close>\<close>
  "remove_c_chars text = filter (\<lambda>x. x \<noteq> CHR ''c'' \<and> x \<noteq> CHR ''C'') text"

text \<open>
  The four patterns of \<open>parse_inline_formatting\<close> have one shape: the opening
  character \<open>opn\<close> twice, a group \<open>([^x]+)\<close> of one or more characters other than \<open>x\<close>,
  the closing character \<open>cls\<close> twice. The group is greedy: the engine takes the longest
  run first and gives characters back one at a time until the closing pair follows.
\<close>

definition span_candidates :: "char \<Rightarrow> string \<Rightarrow> nat list" where
  \<comment> \<open>the lengths the group can take at the start of \<open>t\<close>, longest first\<close>
  "span_candidates x t = rev [1..<Suc (length (takeWhile (\<lambda>a. a \<noteq> x) t))]"

fun try_close :: "char \<Rightarrow> string \<Rightarrow> nat list \<Rightarrow> (string \<times> string) option" where
  "try_close cls t [] = None"
| "try_close cls t (n # ns) =
     (if take 2 (drop n t) = [cls, cls] then Some (take n t, drop (n + 2) t)
      else try_close cls t ns)"

definition match_span :: "char \<Rightarrow> char \<Rightarrow> char \<Rightarrow> string \<Rightarrow> (string \<times> string) option" where
  \<comment> \<open>a match of the pattern at the very start of \<open>s\<close>: the group and the text after the match\<close>
  "match_span opn x cls s =
     (if take 2 s = [opn, opn] then try_close cls (drop 2 s) (span_candidates x (drop 2 s))
      else None)"

lemma take2_pair_length:
  "take 2 u = [a, b] \<Longrightarrow> 2 \<le> length u"
  by (cases u; cases "tl u") auto

lemma try_close_length:
  "try_close cls t ns = Some (g, r) \<Longrightarrow> length r < length t"
proof (induction ns)
  case Nil
  then show ?case by simp
next
  case (Cons n ns)
  show ?case
  proof (cases "take 2 (drop n t) = [cls, cls]")
    case True
    then have "2 \<le> length (drop n t)" by (rule take2_pair_length)
    moreover from True Cons.prems have "r = drop (n + 2) t" by simp
    ultimately show ?thesis by simp
  next
    case False
    with Cons show ?thesis by simp
  qed
qed

lemma match_span_length:
  "match_span opn x cls s = Some (g, r) \<Longrightarrow> length r < length s"
  by (auto simp: match_span_def split: if_splits dest: try_close_length)

function re_sub :: "char \<Rightarrow> char \<Rightarrow> char \<Rightarrow> (string \<Rightarrow> string) \<Rightarrow> string \<Rightarrow> string" where
  \<comment> \<open>\<open>re.sub(pattern, repl, s)\<close>: leftmost matches, left to right, never overlapping\<close>
  "re_sub opn x cls repl s =
     (if s = [] then []
      else (case match_span opn x cls s of
              Some (g, r) \<Rightarrow> repl g @ re_sub opn x cls repl r
            | None \<Rightarrow> hd s # re_sub opn x cls repl (tl s)))"
  by pat_completeness auto
termination
  by (relation "measure (\<lambda>(opn, x, cls, repl, s). length s)")
     (auto dest: match_span_length)

declare re_sub.simps [simp del]

definition parse_inline_formatting :: "string \<Rightarrow> string" where
  "parse_inline_formatting line0 =
     (let line1 = re_sub CHR ''['' CHR '']'' CHR '']'' md5_hash line0;
          line2 = re_sub CHR ''('' CHR '')'' CHR '')'' remove_c_chars line1;
          line3 = re_sub CHR ''*'' CHR ''*'' CHR ''*'' (\<lambda>g. ''<b>'' @ g @ ''</b>'') line2;
          line4 = re_sub CHR ''_'' CHR ''_'' CHR ''_'' (\<lambda>g. ''<em>'' @ g @ ''</em>'') line3
      in line4)"

section \<open>Block parsing\<close>

function process_list_loop ::
  "string list \<Rightarrow> string \<Rightarrow> string list \<Rightarrow> nat \<Rightarrow> string list \<times> nat" where
  \<comment> \<open>the \<open>while\<close> loop of \<open>process_list_block\<close>; the two \<open>break\<close>s are the two results
     that do not recurse\<close>
  "process_list_loop lines list_char list_content i =
     (if i < length lines then
        (if startswith (rstrip_nl (lines ! i)) (list_char @ '' '') then
           process_list_loop lines list_char
             (list_content @
                [''<li>'' @
                 parse_inline_formatting
                   (strip (drop (length (list_char @ '' '')) (rstrip_nl (lines ! i)))) @
                 ''</li>''])
             (i + 1)
         else if strip (rstrip_nl (lines ! i)) = [] then (list_content, i + 1)
         else (list_content, i))
      else (list_content, i))"
  by pat_completeness auto
termination
  by (relation "measure (\<lambda>(lines, list_char, list_content, i). length lines - i)") auto

declare process_list_loop.simps [simp del]

definition process_list_block ::
  "string list \<Rightarrow> nat \<Rightarrow> string \<Rightarrow> string \<Rightarrow> string list \<times> nat" where
  "process_list_block lines start_index list_char list_tag =
     (case process_list_loop lines list_char [''<'' @ list_tag @ ''>''] start_index of
        (list_content, i) \<Rightarrow> (list_content @ [''</'' @ list_tag @ ''>''], i))"

function collect_paragraph :: "string list \<Rightarrow> string list \<Rightarrow> nat \<Rightarrow> string list \<times> nat" where
  \<comment> \<open>the inner \<open>while\<close> loop of the paragraph branch\<close>
  "collect_paragraph lines paragraph_lines i =
     (if i < length lines then
        (if strip (rstrip_nl (lines ! i)) = [] \<or> startswith (rstrip_nl (lines ! i)) ''#'' \<or>
            startswith (rstrip_nl (lines ! i)) ''- '' \<or> startswith (rstrip_nl (lines ! i)) ''* ''
         then (paragraph_lines, i)
         else collect_paragraph lines (paragraph_lines @ [rstrip_nl (lines ! i)]) (i + 1))
      else (paragraph_lines, i))"
  by pat_completeness auto
termination
  by (relation "measure (\<lambda>(lines, paragraph_lines, i). length lines - i)") auto

declare collect_paragraph.simps [simp del]

definition header_level :: "string \<Rightarrow> nat" where
  \<comment> \<open>\<open>len(line) - len(line.lstrip('#'))\<close>\<close>
  "header_level line = length line - length (lstrip_hash line)"

definition is_header :: "string \<Rightarrow> bool" where
  \<comment> \<open>the two nested tests of the header branch\<close>
  "is_header line =
     (startswith line ''#'' \<and> 1 \<le> header_level line \<and> header_level line \<le> 6 \<and>
      take 1 (drop (header_level line) line) = '' '')"

definition main_step :: "string list \<Rightarrow> nat \<Rightarrow> string list \<Rightarrow> nat \<times> string list" where
  \<comment> \<open>one pass through the body of the \<open>while\<close> loop of \<open>convert_markdown_to_html\<close>, at
     cursor \<open>i < len(lines)\<close>: the new cursor and the new \<open>html_content\<close>\<close>
  "main_step lines i html_content =
     (let line = rstrip_nl (lines ! i) in
      if strip line = [] then (i + 1, html_content)
      else if is_header line then
        (let level = header_level line;
             header_text = parse_inline_formatting (strip (drop (level + 1) line))
         in (i + 1,
             html_content @
               [''<h'' @ str_nat level @ ''>'' @ header_text @ ''</h'' @ str_nat level @ ''>'']))
      else if startswith line ''- '' then
        (case process_list_block lines i ''-'' ''ul'' of
           (list_html, next_i) \<Rightarrow> (next_i, html_content @ list_html))
      else if startswith line ''* '' then
        (case process_list_block lines i ''*'' ''ol'' of
           (list_html, next_i) \<Rightarrow> (next_i, html_content @ list_html))
      else if strip line \<noteq> [] then
        (case collect_paragraph lines [] i of
           (paragraph_lines, i') \<Rightarrow>
             (i', html_content @
                    [''<p>'' @ parse_inline_formatting (join '' '' paragraph_lines) @ ''</p>'']))
      else (i, html_content))"

partial_function (option) main_loop :: "string list \<Rightarrow> nat \<Rightarrow> string list \<Rightarrow> string list option" where
  \<comment> \<open>the \<open>while i < len(lines)\<close> loop; \<open>None\<close> when it never ends\<close>
  "main_loop lines i html_content =
     (if i < length lines then
        (case main_step lines i html_content of (i', html_content') \<Rightarrow>
           main_loop lines i' html_content')
      else Some html_content)"

declare main_loop.simps [code]

definition convert_markdown_to_html :: "string list \<Rightarrow> string option" where
  \<comment> \<open>from the lines read to the text written: \<open>'\n'.join(html_content) + '\n'\<close>\<close>
  "convert_markdown_to_html lines =
     (case main_loop lines 0 [] of
        None \<Rightarrow> None
      | Some html_content \<Rightarrow> Some (join [CHR 0x0A] html_content @ [CHR 0x0A]))"

fun contains :: "string \<Rightarrow> string \<Rightarrow> bool" where
  \<comment> \<open>\<open>p in s\<close>: the text \<open>p\<close> occurs somewhere in \<open>s\<close>\<close>
  "contains [] p = (p = [])"
| "contains (c # cs) p = (startswith (c # cs) p \<or> contains cs p)"

fun run_steps :: "nat \<Rightarrow> string list \<Rightarrow> nat \<times> string list \<Rightarrow> nat \<times> string list" where
  \<comment> \<open>the state of the main loop after at most \<open>n\<close> passes through its body\<close>
  "run_steps 0 lines st = st"
| "run_steps (Suc n) lines (i, html_content) =
     (if i < length lines then run_steps n lines (main_step lines i html_content)
      else (i, html_content))"

section \<open>The main loop: progress and the stuck cursor\<close>

text \<open>
  One pass through the loop body only appends to \<open>html_content\<close>, and the cursor it
  returns does not depend on what was collected so far.
\<close>

lemma main_step_append:
  "main_step lines i html = (fst (main_step lines i []), html @ snd (main_step lines i []))"
proof -
  define line where "line = rstrip_nl (lines ! i)"
  consider (blank) "strip line = []"
    | (header) "strip line \<noteq> []" "is_header line"
    | (ul) "strip line \<noteq> []" "\<not> is_header line" "startswith line ''- ''"
    | (ol) "strip line \<noteq> []" "\<not> is_header line" "\<not> startswith line ''- ''" "startswith line ''* ''"
    | (par) "strip line \<noteq> []" "\<not> is_header line" "\<not> startswith line ''- ''" "\<not> startswith line ''* ''"
    by blast
  then show ?thesis
  proof cases
    case blank
    then show ?thesis unfolding main_step_def Let_def line_def [symmetric] by simp
  next
    case header
    then show ?thesis unfolding main_step_def Let_def line_def [symmetric] by simp
  next
    case ul
    then show ?thesis unfolding main_step_def Let_def line_def [symmetric]
      by (cases "process_list_block lines i ''-'' ''ul''") simp
  next
    case ol
    then show ?thesis unfolding main_step_def Let_def line_def [symmetric]
      by (cases "process_list_block lines i ''*'' ''ol''") simp
  next
    case par
    then show ?thesis unfolding main_step_def Let_def line_def [symmetric]
      by (cases "collect_paragraph lines [] i") simp
  qed
qed


lemma main_loop_stuck_aux:
  assumes "main_loop lines i html = Some r"
  shows "\<not> (i < length lines \<and> fst (main_step lines i []) = i)"
proof (rule main_loop.raw_induct
    [where P = "\<lambda>ls j h r. \<not> (j < length ls \<and> fst (main_step ls j []) = j)", OF _ assms])
  fix ml ls j h r
  assume IH: "\<And>ls j h r. ml ls j h = Some r \<Longrightarrow>
                \<not> (j < length ls \<and> fst (main_step ls j []) = j)"
    and body: "(if j < length ls
                then case main_step ls j h of (i', html_content') \<Rightarrow> ml ls i' html_content'
                else Some h) = Some r"
  show "\<not> (j < length ls \<and> fst (main_step ls j []) = j)"
  proof
    assume a: "j < length ls \<and> fst (main_step ls j []) = j"
    have st: "main_step ls j h = (j, h @ snd (main_step ls j []))"
      using main_step_append [of ls j h] a by simp
    from a have lt: "j < length ls" by blast
    from body have b: "ml ls j (h @ snd (main_step ls j [])) = Some r"
      by (simp add: st lt)
    from IH [OF b] a show False by blast
  qed
qed

lemma main_loop_stuck:
  assumes "i < length lines" and "fst (main_step lines i []) = i"
  shows "main_loop lines i html = None"
proof (cases "main_loop lines i html")
  case None
  then show ?thesis .
next
  case (Some r)
  from main_loop_stuck_aux [OF this] assms show ?thesis by blast
qed

lemma stuck_hash_x: "fst (main_step [''#x''] 0 []) = 0"
  by code_simp

text \<open>
  Claim C1. The conversion from the list of input lines to the output text returns a
  result on every input. It does not: on the one-line input \<open>#x\<close> (a \<open>#\<close> run that is
  not followed by a space) the header test fails, the paragraph branch collects nothing
  because its loop stops at once on a line starting with \<open>#\<close>, an empty paragraph is
  appended and the cursor stays where it is. The loop never ends and no output is produced.
\<close>

theorem C1_convert_never_returns_on_bad_header:
  "convert_markdown_to_html [''#x''] = None"
proof -
  have "main_loop [''#x''] 0 [] = None"
    by (rule main_loop_stuck) (simp, rule stuck_hash_x)
  then show ?thesis by (simp only: convert_markdown_to_html_def option.case)
qed

section \<open>The substitution engine\<close>

text \<open>
  Facts about one \<open>re.sub\<close> pass: text without the opening character is copied, a
  span with a non-empty group and no excluded character matches as a whole, and a match
  always has a non-empty group.
\<close>

lemma re_sub_Nil [simp]: "re_sub opn x cls f [] = []"
  by (simp add: re_sub.simps)

lemma re_sub_Cons:
  "re_sub opn x cls f (a # s) =
     (case match_span opn x cls (a # s) of
        Some (g, r) \<Rightarrow> f g @ re_sub opn x cls f r
      | None \<Rightarrow> a # re_sub opn x cls f s)"
  by (subst re_sub.simps) (simp split: option.split)

lemma match_span_other [simp]: "a \<noteq> opn \<Longrightarrow> match_span opn x cls (a # s) = None"
  by (simp add: match_span_def)

lemma match_span_other2 [simp]: "b \<noteq> opn \<Longrightarrow> match_span opn x cls (a # b # s) = None"
  by (simp add: match_span_def)

lemma match_span_short [simp]: "match_span opn x cls [a] = None"
  by (simp add: match_span_def)

lemma re_sub_skip:
  "opn \<notin> set u \<Longrightarrow> re_sub opn x cls f (u @ w) = u @ re_sub opn x cls f w"
  by (induction u) (auto simp: re_sub_Cons)

lemma re_sub_id: "opn \<notin> set s \<Longrightarrow> re_sub opn x cls f s = s"
  using re_sub_skip [of opn s x cls f "[]"] by simp

lemma try_close_absent: "cls \<notin> set t \<Longrightarrow> try_close cls t ns = None"
proof (induction ns)
  case Nil
  show ?case by simp
next
  case (Cons n ns)
  have "take 2 (drop n t) \<noteq> [cls, cls]"
  proof
    assume "take 2 (drop n t) = [cls, cls]"
    then have "cls \<in> set (take 2 (drop n t))" by simp
    then have "cls \<in> set t" by (meson in_set_dropD in_set_takeD)
    with Cons.prems show False by simp
  qed
  with Cons show ?case by simp
qed

lemma match_span_empty_group:
  "takeWhile (\<lambda>a. a \<noteq> x) t = [] \<Longrightarrow> match_span opn x cls (opn # opn # t) = None"
  by (simp add: match_span_def span_candidates_def)

lemma match_span_no_close:
  "cls \<notin> set t \<Longrightarrow> match_span opn x cls (opn # opn # t) = None"
  by (simp add: match_span_def try_close_absent)

lemma match_span_hit:
  assumes "g \<noteq> []" and "x \<notin> set g"
  shows "match_span opn x x (opn # opn # g @ x # x # rest) = Some (g, rest)"
proof -
  have tw: "takeWhile (\<lambda>a. a \<noteq> x) (g @ x # x # rest) = g"
    using assms(2) by (induction g) auto
  from assms(1) obtain k where k: "length g = Suc k" by (cases g) auto
  have "span_candidates x (g @ x # x # rest) = length g # rev [1..<length g]"
    unfolding span_candidates_def tw using k by simp
  then show ?thesis by (simp add: match_span_def)
qed

lemma try_close_group:
  "try_close cls t ns = Some (g, r) \<Longrightarrow>
     \<exists>n \<in> set ns. g = take n t \<and> r = drop (n + 2) t \<and> take 2 (drop n t) = [cls, cls]"
  by (induction ns) (auto split: if_splits)

lemma match_span_group_nonempty:
  assumes "match_span opn x cls s = Some (g, r)"
  shows "g \<noteq> []"
proof -
  from assms have tc: "try_close cls (drop 2 s) (span_candidates x (drop 2 s)) = Some (g, r)"
    by (simp add: match_span_def split: if_splits)
  from try_close_group [OF tc] obtain n where
    n: "n \<in> set (span_candidates x (drop 2 s))" "g = take n (drop 2 s)"
       "take 2 (drop n (drop 2 s)) = [cls, cls]" by blast
  from n(1) have "1 \<le> n" by (auto simp: span_candidates_def)
  moreover from n(3) have "2 \<le> length (drop n (drop 2 s))" by (rule take2_pair_length)
  ultimately show ?thesis using n(2) by auto
qed

section \<open>The digest is 32 lowercase hexadecimal characters\<close>

lemma hex_digit_in: "hex_digit n \<in> hex_chars"
proof -
  have "n mod 16 < length ''0123456789abcdef''" by simp
  then show ?thesis unfolding hex_digit_def hex_chars_def by (rule nth_mem)
qed

lemma hexdigest_chars: "set (hexdigest bs) \<subseteq> hex_chars"
  by (auto simp: hexdigest_def hex_byte_def hex_digit_in)

lemma hexdigest_length: "length (hexdigest bs) = 2 * length bs"
  by (induction bs) (simp_all add: hexdigest_def hex_byte_def)

lemma md5_digest_length: "length (md5_digest m) = 16"
proof -
  obtain a b c d where
    "md5_blocks (0x67452301, 0xefcdab89, 0x98badcfe, 0x10325476) (md5_pad m) = (a, b, c, d)"
    by (cases "md5_blocks (0x67452301, 0xefcdab89, 0x98badcfe, 0x10325476) (md5_pad m)") auto
  then show ?thesis by (simp add: md5_digest_def word_bytes_def)
qed

lemma md5_hash_length: "length (md5_hash t) = 32"
  by (simp add: md5_hash_def hexdigest_length md5_digest_length)

lemma md5_hash_chars: "set (md5_hash t) \<subseteq> hex_chars"
  by (simp add: md5_hash_def hexdigest_chars)

lemma hex_no_delims:
  "CHR ''['' \<notin> hex_chars" "CHR ''('' \<notin> hex_chars" "CHR ''*'' \<notin> hex_chars" "CHR ''_'' \<notin> hex_chars"
  by (simp_all add: hex_chars_def)

lemma parse_inline_formatting_hex:
  assumes "set h \<subseteq> hex_chars"
  shows "parse_inline_formatting (h @ s) = h @ parse_inline_formatting s"
proof -
  from assms hex_no_delims have
    "CHR ''['' \<notin> set h" "CHR ''('' \<notin> set h" "CHR ''*'' \<notin> set h" "CHR ''_'' \<notin> set h"
    by blast+
  then show ?thesis
    by (simp add: parse_inline_formatting_def Let_def re_sub_skip)
qed

lemma parse_inline_formatting_Nil [simp]: "parse_inline_formatting [] = []"
  by (simp add: parse_inline_formatting_def)

lemma hash_stage_hit:
  assumes "T \<noteq> []" and "CHR '']'' \<notin> set T"
  shows "re_sub CHR ''['' CHR '']'' CHR '']'' f (''[['' @ T @ '']]'' @ R)
         = f T @ re_sub CHR ''['' CHR '']'' CHR '']'' f R"
  using match_span_hit [OF assms, of "CHR ''[''" R]
  by (simp add: re_sub_Cons)

lemma md5_hash_no_delims:
  "CHR ''['' \<notin> set (md5_hash T)" "CHR ''('' \<notin> set (md5_hash T)"
  "CHR ''*'' \<notin> set (md5_hash T)" "CHR ''_'' \<notin> set (md5_hash T)"
  using md5_hash_chars [of T] hex_no_delims by blast+

lemma format_hash_span:
  assumes "T \<noteq> []" and "CHR '']'' \<notin> set T"
  shows "parse_inline_formatting (''[['' @ T @ '']]'' @ R) = md5_hash T @ parse_inline_formatting R"
  using hash_stage_hit [OF assms, of md5_hash R] md5_hash_no_delims [of T]
  by (simp add: parse_inline_formatting_def Let_def re_sub_skip)

section \<open>Hash directive\<close>

text \<open>
  Claim C3, as amended. The pattern's group is \<open>[^\]]+\<close>: it takes no \<open>]\<close> at all,
  and at least one character. For every non-empty text \<open>T\<close> that contains no \<open>]\<close>,
  formatting \<open>[[T]]\<close> yields the MD5 digest of the UTF-8 bytes of \<open>T\<close>, 32 lowercase
  hexadecimal characters; the span ends at the first \<open>]]\<close>, so that with any text \<open>R\<close>
  after it the result is the digest followed by the formatting of \<open>R\<close>.
\<close>

theorem C3_hash_directive:
  assumes "T \<noteq> []" and "CHR '']'' \<notin> set T"
  shows "parse_inline_formatting (''[['' @ T @ '']]'') = md5_hash T
       \<and> parse_inline_formatting (''[['' @ T @ '']]'' @ R) = md5_hash T @ parse_inline_formatting R
       \<and> length (md5_hash T) = 32 \<and> set (md5_hash T) \<subseteq> set ''0123456789abcdef''"
  using format_hash_span [OF assms, of "[]"] format_hash_span [OF assms, of R]
    md5_hash_length [of T] md5_hash_chars [of T]
  by (simp add: hex_chars_def)


theorem C3_hash_directive_witness:
  "''ab'' \<noteq> [] \<and> CHR '']'' \<notin> set ''ab''
   \<and> parse_inline_formatting ''[[ab]]'' = md5_hash ''ab''
   \<and> parse_inline_formatting ''[[ab]] and [[ab]]'' = md5_hash ''ab'' @ parse_inline_formatting '' and [[ab]]''"
  using C3_hash_directive [of "''ab''" "'' and [[ab]]''"] by simp


text \<open>
  The claim as stated asks only that \<open>T\<close> contain no \<open>]]\<close>. The text \<open>a]b\<close> contains
  none, and \<open>[[a]b]]\<close> is left as it is: the group stops at the single \<open>]\<close>, which is
  not followed by a second one.
\<close>

theorem C3_single_bracket_counterexample:
  "\<not> contains ''a]b'' '']]''
   \<and> parse_inline_formatting (''[['' @ ''a]b'' @ '']]'') = ''[[a]b]]''
   \<and> parse_inline_formatting (''[['' @ ''a]b'' @ '']]'') \<noteq> md5_hash ''a]b''"
  by code_simp

lemma format_hex_id:
  "set h \<subseteq> hex_chars \<Longrightarrow> parse_inline_formatting h = h"
  using parse_inline_formatting_hex [of h "[]"] by simp

text \<open>
  Claim C4, as amended. For every non-empty text \<open>T\<close> that contains no \<open>]\<close>, the result
  of formatting \<open>[[T]]\<close> is the digest, which holds none of the opening characters, and
  formatting it a second time leaves it unchanged.
\<close>

theorem C4_rehash_idempotent:
  assumes "T \<noteq> []" and "CHR '']'' \<notin> set T"
  shows "parse_inline_formatting (parse_inline_formatting (''[['' @ T @ '']]''))
         = parse_inline_formatting (''[['' @ T @ '']]'')"
proof -
  have "parse_inline_formatting (''[['' @ T @ '']]'') = md5_hash T"
    using format_hash_span [OF assms, of "[]"] by simp
  moreover have "parse_inline_formatting (md5_hash T) = md5_hash T"
    by (rule format_hex_id) (rule md5_hash_chars)
  ultimately show ?thesis by simp
qed

theorem C4_rehash_idempotent_witness:
  "''ab'' \<noteq> [] \<and> CHR '']'' \<notin> set ''ab''
   \<and> parse_inline_formatting (parse_inline_formatting ''[[ab]]'') = parse_inline_formatting ''[[ab]]''"
  using C4_rehash_idempotent [of "''ab''"] by simp

text \<open>
  With the claim's own condition (no \<open>]]\<close> in \<open>T\<close>) the span need not be hashed, and what
  is left can change again in a second pass: in \<open>[[]****a****]]\<close> the bold stage wraps
  \<open>a\<close> once in each pass.
\<close>

theorem C4_unhashed_span_counterexample:
  "\<not> contains '']****a****'' '']]''
   \<and> parse_inline_formatting (''[['' @ '']****a****'' @ '']]'') = ''[[]**<b>a</b>**]]''
   \<and> parse_inline_formatting (parse_inline_formatting (''[['' @ '']****a****'' @ '']]''))
       = ''[[]<b><b>a</b></b>]]''
   \<and> parse_inline_formatting (parse_inline_formatting (''[['' @ '']****a****'' @ '']]''))
       \<noteq> parse_inline_formatting (''[['' @ '']****a****'' @ '']]'')"
  by code_simp

section \<open>Character-removal directive\<close>

lemma remove_c_chars_subset: "set (remove_c_chars T) \<subseteq> set T"
  by (auto simp: remove_c_chars_def)

lemma removal_stage_hit:
  assumes "T \<noteq> []" and "CHR '')'' \<notin> set T"
  shows "re_sub CHR ''('' CHR '')'' CHR '')'' f (''(('' @ T @ ''))'' @ R)
         = f T @ re_sub CHR ''('' CHR '')'' CHR '')'' f R"
  using match_span_hit [OF assms, of "CHR ''(''" R]
  by (simp add: re_sub_Cons)

text \<open>
  Claim C5, as amended. For every non-empty text \<open>T\<close> that contains no \<open>)\<close> and no \<open>[\<close>,
  formatting \<open>((T))\<close> yields the bold and emphasis stages applied to \<open>T\<close> with every
  \<open>c\<close> and \<open>C\<close> removed; when \<open>T\<close> contains no \<open>*\<close> and no \<open>_\<close> either, it yields exactly
  \<open>T\<close> with every \<open>c\<close> and \<open>C\<close> removed, the other characters kept in order.
\<close>

theorem C5_character_removal:
  assumes "T \<noteq> []" and "CHR '')'' \<notin> set T" and "CHR ''['' \<notin> set T"
  shows "parse_inline_formatting (''(('' @ T @ ''))'')
         = re_sub CHR ''_'' CHR ''_'' CHR ''_'' (\<lambda>g. ''<em>'' @ g @ ''</em>'')
             (re_sub CHR ''*'' CHR ''*'' CHR ''*'' (\<lambda>g. ''<b>'' @ g @ ''</b>'') (remove_c_chars T))
       \<and> (CHR ''*'' \<notin> set T \<and> CHR ''_'' \<notin> set T \<longrightarrow>
            parse_inline_formatting (''(('' @ T @ ''))'') = remove_c_chars T)"
proof -
  have s1: "re_sub CHR ''['' CHR '']'' CHR '']'' md5_hash (''(('' @ T @ ''))'') = ''(('' @ T @ ''))''"
    using assms(3) by (intro re_sub_id) simp
  have s2: "re_sub CHR ''('' CHR '')'' CHR '')'' remove_c_chars (''(('' @ T @ ''))'') = remove_c_chars T"
    using removal_stage_hit [OF assms(1,2), of remove_c_chars "[]"] by simp
  have first: "parse_inline_formatting (''(('' @ T @ ''))'')
         = re_sub CHR ''_'' CHR ''_'' CHR ''_'' (\<lambda>g. ''<em>'' @ g @ ''</em>'')
             (re_sub CHR ''*'' CHR ''*'' CHR ''*'' (\<lambda>g. ''<b>'' @ g @ ''</b>'') (remove_c_chars T))"
    unfolding parse_inline_formatting_def Let_def s1 s2 ..
  have second: "parse_inline_formatting (''(('' @ T @ ''))'') = remove_c_chars T"
    if "CHR ''*'' \<notin> set T \<and> CHR ''_'' \<notin> set T"
  proof -
    from that remove_c_chars_subset [of T]
    have "CHR ''*'' \<notin> set (remove_c_chars T)" "CHR ''_'' \<notin> set (remove_c_chars T)" by blast+
    then show ?thesis unfolding first by (simp add: re_sub_id)
  qed
  from first second show ?thesis by blast
qed

theorem C5_character_removal_witness:
  "''Cc a cb'' \<noteq> [] \<and> CHR '')'' \<notin> set ''Cc a cb'' \<and> CHR ''['' \<notin> set ''Cc a cb''
   \<and> CHR ''*'' \<notin> set ''Cc a cb'' \<and> CHR ''_'' \<notin> set ''Cc a cb''
   \<and> parse_inline_formatting ''((Cc a cb))'' = remove_c_chars ''Cc a cb''
   \<and> remove_c_chars ''Cc a cb'' = '' a b''"
proof -
  have h: "''Cc a cb'' \<noteq> []" "CHR '')'' \<notin> set ''Cc a cb''" "CHR ''['' \<notin> set ''Cc a cb''"
    and k: "CHR ''*'' \<notin> set ''Cc a cb'' \<and> CHR ''_'' \<notin> set ''Cc a cb''"
    by simp_all
  from C5_character_removal [OF h] k
  have "parse_inline_formatting (''(('' @ ''Cc a cb'' @ ''))'') = remove_c_chars ''Cc a cb''"
    by blast
  then show ?thesis by (simp add: remove_c_chars_def)
qed

text \<open>
  The claim as stated fails where a later stage still finds a span in the text: \<open>**a**\<close>
  contains no \<open>)\<close> and no \<open>c\<close>, and \<open>((**a**))\<close> is formatted to \<open><b>a</b>\<close>.
\<close>

theorem C5_bold_inside_counterexample:
  "CHR '')'' \<notin> set ''**a**''
   \<and> parse_inline_formatting (''(('' @ ''**a**'' @ ''))'') = ''<b>a</b>''
   \<and> remove_c_chars ''**a**'' = ''**a**''
   \<and> parse_inline_formatting (''(('' @ ''**a**'' @ ''))'') \<noteq> remove_c_chars ''**a**''"
  by code_simp

section \<open>Stage order\<close>

text \<open>
  Claim C6. The formatter is the four substitutions in the order hash directive,
  character removal, bold, emphasis, each applied to the result of the one before. On
  \<open>**[[ab]]**\<close> the hash stage gives \<open>**\<close>, the digest of \<open>ab\<close>, \<open>**\<close>, and the whole
  formatter gives that digest inside \<open><b>\<close> and \<open></b>\<close>.
\<close>

theorem C6_stage_order:
  "parse_inline_formatting line
     = re_sub CHR ''_'' CHR ''_'' CHR ''_'' (\<lambda>g. ''<em>'' @ g @ ''</em>'')
         (re_sub CHR ''*'' CHR ''*'' CHR ''*'' (\<lambda>g. ''<b>'' @ g @ ''</b>'')
            (re_sub CHR ''('' CHR '')'' CHR '')'' remove_c_chars
               (re_sub CHR ''['' CHR '']'' CHR '']'' md5_hash line)))
   \<and> re_sub CHR ''['' CHR '']'' CHR '']'' md5_hash ''**[[ab]]**'' = ''**'' @ md5_hash ''ab'' @ ''**''
   \<and> parse_inline_formatting ''**[[ab]]**'' = ''<b>'' @ md5_hash ''ab'' @ ''</b>''
   \<and> md5_hash ''ab'' = ''187ef4436122d1cc2f40dc2b92f0eba0''"
proof -
  have a: "parse_inline_formatting line
     = re_sub CHR ''_'' CHR ''_'' CHR ''_'' (\<lambda>g. ''<em>'' @ g @ ''</em>'')
         (re_sub CHR ''*'' CHR ''*'' CHR ''*'' (\<lambda>g. ''<b>'' @ g @ ''</b>'')
            (re_sub CHR ''('' CHR '')'' CHR '')'' remove_c_chars
               (re_sub CHR ''['' CHR '']'' CHR '']'' md5_hash line)))"
    by (simp add: parse_inline_formatting_def Let_def)
  have b: "re_sub CHR ''['' CHR '']'' CHR '']'' md5_hash ''**[[ab]]**'' = ''**'' @ md5_hash ''ab'' @ ''**''"
    by code_simp
  have c: "parse_inline_formatting ''**[[ab]]**'' = ''<b>'' @ md5_hash ''ab'' @ ''</b>''"
    by code_simp
  have d: "md5_hash ''ab'' = ''187ef4436122d1cc2f40dc2b92f0eba0''"
    by code_simp
  from a b c d show ?thesis by blast
qed

section \<open>Empty spans\<close>

lemma match_span_single: "opn \<notin> set v \<Longrightarrow> match_span opn x cls (a # v) = None"
  by (cases v) (auto simp: match_span_def)

lemma re_sub_empty_span:
  assumes "opn \<notin> set u" and "opn \<notin> set v"
  shows "re_sub opn cls cls f (u @ [opn, opn, cls, cls] @ v) = u @ [opn, opn, cls, cls] @ v"
proof (cases "cls = opn")
  case True
  have m1: "match_span opn opn opn (opn # opn # opn # opn # v) = None"
    by (rule match_span_empty_group) simp
  have m2: "match_span opn opn opn (opn # opn # opn # v) = None"
    by (rule match_span_empty_group) simp
  have m3: "match_span opn opn opn (opn # opn # v) = None"
    by (rule match_span_no_close) (rule assms(2))
  have m4: "match_span opn opn opn (opn # v) = None"
    by (rule match_span_single) (rule assms(2))
  show ?thesis
    using assms(1,2) by (simp add: True re_sub_skip re_sub_Cons m1 m2 m3 m4 re_sub_id)
next
  case False
  have m1: "match_span opn cls cls (opn # opn # cls # cls # v) = None"
    by (rule match_span_empty_group) simp
  have m2: "match_span opn cls cls (opn # cls # cls # v) = None"
    using False by simp
  from assms(2) False have "opn \<notin> set (cls # cls # v)" by auto
  then have r: "re_sub opn cls cls f (cls # cls # v) = cls # cls # v" by (rule re_sub_id)
  show ?thesis
    using assms(1) by (simp add: re_sub_skip re_sub_Cons [of _ _ _ _ opn] m1 m2 r)
qed

text \<open>
  Claim C9, as amended. A match of any of the four patterns has at least one character
  between its opening and closing delimiters, so an empty span is never itself a match.
  The formatter leaves \<open>[[]]\<close>, \<open>(())\<close>, \<open>****\<close> and \<open>____\<close> unchanged when they stand
  alone (\<open>u\<close> and \<open>v\<close> empty) or between texts \<open>u\<close> and \<open>v\<close> that contain none of the
  opening characters \<open>[\<close>, \<open>(\<close>, \<open>*\<close> and \<open>_\<close>.
\<close>

theorem C9_empty_spans_literal:
  assumes "set u \<inter> set ''[(*_'' = {}" and "set v \<inter> set ''[(*_'' = {}"
  shows "parse_inline_formatting (u @ ''[[]]'' @ v) = u @ ''[[]]'' @ v
       \<and> parse_inline_formatting (u @ ''(())'' @ v) = u @ ''(())'' @ v
       \<and> parse_inline_formatting (u @ ''****'' @ v) = u @ ''****'' @ v
       \<and> parse_inline_formatting (u @ ''____'' @ v) = u @ ''____'' @ v
       \<and> (match_span opn x cls s = Some (g, r) \<longrightarrow> g \<noteq> [])"
proof -
  from assms have nu: "CHR ''['' \<notin> set u" "CHR ''('' \<notin> set u" "CHR ''*'' \<notin> set u" "CHR ''_'' \<notin> set u"
    and nv: "CHR ''['' \<notin> set v" "CHR ''('' \<notin> set v" "CHR ''*'' \<notin> set v" "CHR ''_'' \<notin> set v"
    by auto
  have e1: "re_sub CHR ''['' CHR '']'' CHR '']'' f (u @ ''[[]]'' @ v) = u @ ''[[]]'' @ v" for f
    using re_sub_empty_span [OF nu(1) nv(1), of "CHR '']''" f] by simp
  have e2: "re_sub CHR ''('' CHR '')'' CHR '')'' f (u @ ''(())'' @ v) = u @ ''(())'' @ v" for f
    using re_sub_empty_span [OF nu(2) nv(2), of "CHR '')''" f] by simp
  have e3: "re_sub CHR ''*'' CHR ''*'' CHR ''*'' f (u @ ''****'' @ v) = u @ ''****'' @ v" for f
    using re_sub_empty_span [OF nu(3) nv(3), of "CHR ''*''" f] by simp
  have e4: "re_sub CHR ''_'' CHR ''_'' CHR ''_'' f (u @ ''____'' @ v) = u @ ''____'' @ v" for f
    using re_sub_empty_span [OF nu(4) nv(4), of "CHR ''_''" f] by simp
  have c1: "parse_inline_formatting (u @ ''[[]]'' @ v) = u @ ''[[]]'' @ v"
    unfolding parse_inline_formatting_def Let_def e1
    using nu nv by (simp add: re_sub_id)
  have c2: "parse_inline_formatting (u @ ''(())'' @ v) = u @ ''(())'' @ v"
  proof -
    have "re_sub CHR ''['' CHR '']'' CHR '']'' md5_hash (u @ ''(())'' @ v) = u @ ''(())'' @ v"
      using nu nv by (intro re_sub_id) simp
    then show ?thesis
      unfolding parse_inline_formatting_def Let_def
      using nu nv by (simp only: e2) (simp add: re_sub_id)
  qed
  have c3: "parse_inline_formatting (u @ ''****'' @ v) = u @ ''****'' @ v"
  proof -
    have "re_sub CHR ''['' CHR '']'' CHR '']'' md5_hash (u @ ''****'' @ v) = u @ ''****'' @ v"
      using nu nv by (intro re_sub_id) simp
    moreover have "re_sub CHR ''('' CHR '')'' CHR '')'' remove_c_chars (u @ ''****'' @ v) = u @ ''****'' @ v"
      using nu nv by (intro re_sub_id) simp
    ultimately show ?thesis
      unfolding parse_inline_formatting_def Let_def
      using nu nv by (simp only: e3) (simp add: re_sub_id)
  qed
  have c4: "parse_inline_formatting (u @ ''____'' @ v) = u @ ''____'' @ v"
  proof -
    have "re_sub CHR ''['' CHR '']'' CHR '']'' md5_hash (u @ ''____'' @ v) = u @ ''____'' @ v"
      using nu nv by (intro re_sub_id) simp
    moreover have "re_sub CHR ''('' CHR '')'' CHR '')'' remove_c_chars (u @ ''____'' @ v) = u @ ''____'' @ v"
      using nu nv by (intro re_sub_id) simp
    moreover have "re_sub CHR ''*'' CHR ''*'' CHR ''*'' (\<lambda>g. ''<b>'' @ g @ ''</b>'') (u @ ''____'' @ v) = u @ ''____'' @ v"
      using nu nv by (intro re_sub_id) simp
    ultimately show ?thesis
      unfolding parse_inline_formatting_def Let_def
      by (simp only: e4)
  qed
  from c1 c2 c3 c4 match_span_group_nonempty [of opn x cls s g r] show ?thesis by blast
qed

theorem C9_empty_spans_literal_witness:
  "set ''a '' \<inter> set ''[(*_'' = {} \<and> set '' b'' \<inter> set ''[(*_'' = {}
   \<and> parse_inline_formatting ''a [[]] b'' = ''a [[]] b''
   \<and> parse_inline_formatting ''a (()) b'' = ''a (()) b''
   \<and> parse_inline_formatting ''a **** b'' = ''a **** b''
   \<and> parse_inline_formatting ''a ____ b'' = ''a ____ b''
   \<and> match_span CHR ''['' CHR '']'' CHR '']'' ''[[x]]'' = Some (''x'', [])"
proof -
  have h: "set ''a '' \<inter> set ''[(*_'' = {}" "set '' b'' \<inter> set ''[(*_'' = {}" by simp_all
  have m: "match_span CHR ''['' CHR '']'' CHR '']'' ''[[x]]'' = Some (''x'', [])" by code_simp
  from C9_empty_spans_literal [OF h, of "CHR ''[''" "CHR '']''" "CHR '']''" "''[[x]]''" "''x''" "[]"] h m
  show ?thesis by simp
qed

text \<open>
  The claim as stated puts no condition on the text around the empty span. Next to other
  delimiter characters the characters of an empty span are taken as the delimiters, or as
  the content, of a neighbouring span: in \<open>x**a****\<close> the first two stars of \<open>****\<close>
  close the bold span around \<open>a\<close>, and in \<open>[[[]]\<close> the hash span is the last two \<open>[\<close>
  of the input with the group \<open>[\<close>. In both results the empty span is gone.
\<close>

theorem C9_neighbouring_span_counterexample:
  "contains ''x**a****'' ''****''
   \<and> parse_inline_formatting ''x**a****'' = ''x<b>a</b>**''
   \<and> \<not> contains (parse_inline_formatting ''x**a****'') ''****''
   \<and> contains ''[[[]]'' ''[[]]''
   \<and> parse_inline_formatting ''[[[]]'' = md5_hash ''[''
   \<and> \<not> contains (parse_inline_formatting ''[[[]]'') ''[[]]''"
  by code_simp

section \<open>List blocks\<close>

text \<open>
  A line that starts with a list marker is neither blank nor a header, so the main loop
  hands it to \<open>process_list_block\<close>. The loop of \<open>process_list_block\<close> appends one item
  for each marker line and stops at the first line that is not one.
\<close>

lemma in_dropWhile: "a \<in> set s \<Longrightarrow> \<not> P a \<Longrightarrow> a \<in> set (dropWhile P s)"
  by (induction s) auto

lemma strip_nonempty:
  assumes "a \<in> set s" and "\<not> is_space a"
  shows "strip s \<noteq> []"
proof -
  from assms have "a \<in> set (rev (lstrip s))"
    by (simp add: lstrip_def in_dropWhile)
  then have "a \<in> set (dropWhile is_space (rev (lstrip s)))"
    using assms(2) by (rule in_dropWhile)
  then have "dropWhile is_space (rev (lstrip s)) \<noteq> []" by (cases "dropWhile is_space (rev (lstrip s))") auto
  then show ?thesis by (simp add: strip_def rstrip_def)
qed

lemma startswith_Cons:
  "startswith s (a # p) \<Longrightarrow> \<exists>t. s = a # t \<and> startswith t p"
  by (cases s) (auto simp: startswith_def)

lemma marker_line_facts:
  assumes "startswith line (m # '' '')" and "m \<noteq> CHR ''#''" and "\<not> is_space m"
  shows "strip line \<noteq> []" and "\<not> is_header line"
proof -
  from startswith_Cons [OF assms(1)] obtain t where t: "line = m # t" by blast
  then have "m \<in> set line" by simp
  then show "strip line \<noteq> []" using assms(3) by (rule strip_nonempty)
  from t assms(2) show "\<not> is_header line" by (simp add: is_header_def startswith_def)
qed

lemma process_list_loop_items:
  assumes "start + k \<le> length lines"
    and "\<forall>j < k. startswith (rstrip_nl (lines ! (start + j))) (c @ '' '')"
  shows "process_list_loop lines c acc start
         = process_list_loop lines c
             (acc @ map (\<lambda>j. ''<li>'' @ parse_inline_formatting
                        (strip (drop (length (c @ '' '')) (rstrip_nl (lines ! j)))) @ ''</li>'')
                      [start..<start + k])
             (start + k)"
  using assms
proof (induction k arbitrary: start acc)
  case 0
  then show ?case by simp
next
  case (Suc k)
  from Suc.prems have lt: "start < length lines" by simp
  from Suc.prems(2) have hd: "startswith (rstrip_nl (lines ! start)) (c @ '' '')"
    by (metis add.right_neutral zero_less_Suc)
  have rest: "\<forall>j < k. startswith (rstrip_nl (lines ! (Suc start + j))) (c @ '' '')"
    using Suc.prems(2) by (metis Suc_less_eq add_Suc_shift)
  have le: "Suc start + k \<le> length lines" using Suc.prems(1) by simp
  have "process_list_loop lines c acc start
        = process_list_loop lines c
            (acc @ [''<li>'' @ parse_inline_formatting
                      (strip (drop (length (c @ '' '')) (rstrip_nl (lines ! start)))) @ ''</li>''])
            (Suc start)"
    using lt hd by (subst process_list_loop.simps) simp
  also note Suc.IH [OF le rest]
  finally show ?case by (simp add: upt_conv_Cons del: upt_Suc)
qed

lemma process_list_loop_stop:
  assumes "m < length lines \<longrightarrow> \<not> startswith (rstrip_nl (lines ! m)) (c @ '' '')"
  shows "process_list_loop lines c acc m
         = (acc, if m < length lines \<and> strip (rstrip_nl (lines ! m)) = [] then m + 1 else m)"
  using assms by (subst process_list_loop.simps) simp


lemma process_list_block_result:
  assumes "start + k \<le> length lines"
    and "\<forall>j < k. startswith (rstrip_nl (lines ! (start + j))) (c @ '' '')"
    and "start + k < length lines \<longrightarrow> \<not> startswith (rstrip_nl (lines ! (start + k))) (c @ '' '')"
  shows "process_list_block lines start c tag
         = ([''<'' @ tag @ ''>''] @
            map (\<lambda>j. ''<li>'' @ parse_inline_formatting
                        (strip (drop (length (c @ '' '')) (rstrip_nl (lines ! j)))) @ ''</li>'')
                [start..<start + k] @
            [''</'' @ tag @ ''>''],
            if start + k < length lines \<and> strip (rstrip_nl (lines ! (start + k))) = []
            then start + k + 1 else start + k)"
  unfolding process_list_block_def
    process_list_loop_items [OF assms(1,2)] process_list_loop_stop [OF assms(3)]
  by simp

lemma process_list_loop_shape:
  "i \<le> length lines \<Longrightarrow>
   \<exists>items. fst (process_list_loop lines c acc i) = acc @ items
     \<and> (\<forall>x \<in> set items. \<exists>t. x = ''<li>'' @ t @ ''</li>'')
     \<and> i \<le> snd (process_list_loop lines c acc i)
     \<and> snd (process_list_loop lines c acc i) \<le> length lines
     \<and> (i < length lines \<and> startswith (rstrip_nl (lines ! i)) (c @ '' '')
          \<longrightarrow> items \<noteq> [] \<and> i < snd (process_list_loop lines c acc i))"
proof (induction lines c acc i rule: process_list_loop.induct)
  case (1 lines c acc i)
  show ?case
  proof (cases "i < length lines")
    case False
    with "1.prems" show ?thesis by (subst (1 2 3 4) process_list_loop.simps) simp
  next
    case lt: True
    show ?thesis
    proof (cases "startswith (rstrip_nl (lines ! i)) (c @ '' '')")
      case False
      with lt show ?thesis by (subst (1 2 3 4) process_list_loop.simps) simp
    next
      case True
      define item where "item = ''<li>'' @ parse_inline_formatting
                   (strip (drop (length (c @ '' '')) (rstrip_nl (lines ! i)))) @ ''</li>''"
      have unf: "process_list_loop lines c acc i = process_list_loop lines c (acc @ [item]) (i + 1)"
        using lt True unfolding item_def by (subst process_list_loop.simps) simp
      from lt have "i + 1 \<le> length lines" by simp
      from "1.IH" [OF lt True this, folded item_def] obtain items where
        it: "fst (process_list_loop lines c (acc @ [item]) (i + 1)) = (acc @ [item]) @ items"
            "\<forall>x \<in> set items. \<exists>t. x = ''<li>'' @ t @ ''</li>''"
            "i + 1 \<le> snd (process_list_loop lines c (acc @ [item]) (i + 1))"
            "snd (process_list_loop lines c (acc @ [item]) (i + 1)) \<le> length lines"
        by blast
      have "\<exists>t. item = ''<li>'' @ t @ ''</li>''" unfolding item_def by blast
      with it show ?thesis
        unfolding unf by (intro exI [of _ "item # items"]) auto
    qed
  qed
qed


lemma not_space_markers: "\<not> is_space CHR ''-''" "\<not> is_space CHR ''*''" "\<not> is_space CHR ''#''"
  by (simp_all add: is_space_def)

lemma main_step_ul:
  assumes "startswith (rstrip_nl (lines ! i)) ''- ''"
  shows "main_step lines i html
         = (snd (process_list_block lines i ''-'' ''ul''),
            html @ fst (process_list_block lines i ''-'' ''ul''))"
proof -
  from marker_line_facts [OF assms] not_space_markers
  have "strip (rstrip_nl (lines ! i)) \<noteq> []" "\<not> is_header (rstrip_nl (lines ! i))" by simp_all
  with assms show ?thesis
    by (cases "process_list_block lines i ''-'' ''ul''") (simp add: main_step_def)
qed

lemma main_step_ol:
  assumes "startswith (rstrip_nl (lines ! i)) ''* ''"
  shows "main_step lines i html
         = (snd (process_list_block lines i ''*'' ''ol''),
            html @ fst (process_list_block lines i ''*'' ''ol''))"
proof -
  from marker_line_facts [OF assms] not_space_markers
  have "strip (rstrip_nl (lines ! i)) \<noteq> []" "\<not> is_header (rstrip_nl (lines ! i))" by simp_all
  moreover from startswith_Cons [OF assms] have "\<not> startswith (rstrip_nl (lines ! i)) ''- ''"
    by (auto simp: startswith_def)
  ultimately show ?thesis using assms
    by (cases "process_list_block lines i ''*'' ''ol''") (simp add: main_step_def)
qed

text \<open>
  Claim C8. When the \<open>k\<close> lines from \<open>start\<close> on begin with the marker and the line after
  them (if there is one) does not, the block is the open tag, one \<open><li>\<close> item for each of
  the \<open>k\<close> lines (the text after the marker, stripped and inline-formatted), and the close
  tag. The returned cursor is past the line that ended the list when that line is blank,
  and on that line otherwise; at the end of the input it is the end. The main loop starts
  such a block with marker \<open>-\<close> and tag \<open>ul\<close>, or marker \<open>*\<close> and tag \<open>ol\<close>, and goes on from
  the returned cursor.
\<close>

theorem C8_list_block_collection:
  assumes "start + k \<le> length lines"
    and "\<forall>j < k. startswith (rstrip_nl (lines ! (start + j))) (c @ '' '')"
    and "start + k < length lines \<longrightarrow> \<not> startswith (rstrip_nl (lines ! (start + k))) (c @ '' '')"
  shows "process_list_block lines start c tag
         = ([''<'' @ tag @ ''>''] @
            map (\<lambda>j. ''<li>'' @ parse_inline_formatting
                        (strip (drop (length (c @ '' '')) (rstrip_nl (lines ! j)))) @ ''</li>'')
                [start..<start + k] @
            [''</'' @ tag @ ''>''],
            if start + k < length lines \<and> strip (rstrip_nl (lines ! (start + k))) = []
            then start + k + 1 else start + k)
       \<and> (0 < k \<and> c = ''-'' \<longrightarrow>
            main_step lines start html
            = (snd (process_list_block lines start c ''ul''),
               html @ fst (process_list_block lines start c ''ul'')))
       \<and> (0 < k \<and> c = ''*'' \<longrightarrow>
            main_step lines start html
            = (snd (process_list_block lines start c ''ol''),
               html @ fst (process_list_block lines start c ''ol'')))"
proof -
  have first: "0 < k \<Longrightarrow> startswith (rstrip_nl (lines ! start)) (c @ '' '')"
    using assms(2) by (metis add.right_neutral)
  have ul: "main_step lines start html
            = (snd (process_list_block lines start c ''ul''),
               html @ fst (process_list_block lines start c ''ul''))" if "0 < k \<and> c = ''-''"
    using first that main_step_ul [of lines start html] by simp
  have ol: "main_step lines start html
            = (snd (process_list_block lines start c ''ol''),
               html @ fst (process_list_block lines start c ''ol''))" if "0 < k \<and> c = ''*''"
    using first that main_step_ol [of lines start html] by simp
  from process_list_block_result [OF assms, of tag] ul ol show ?thesis by blast
qed

theorem C8_list_block_collection_witness:
  "process_list_block [''- a'', ''-  __b__  '', '' '', ''c''] 0 ''-'' ''ul''
     = ([''<ul>'', ''<li>a</li>'', ''<li><em>b</em></li>'', ''</ul>''], 3)
   \<and> main_step [''- a'', ''-  __b__  '', '' '', ''c''] 0 []
     = (3, [''<ul>'', ''<li>a</li>'', ''<li><em>b</em></li>'', ''</ul>''])"
proof -
  let ?L = "[''- a'', ''-  __b__  '', '' '', ''c'']"
  have h1: "0 + 2 \<le> length ?L" by simp
  have h2: "\<forall>j < 2. startswith (rstrip_nl (?L ! (0 + j))) (''-'' @ '' '')"
  proof (intro allI impI)
    fix j :: nat assume "j < 2"
    then have "j = 0 \<or> j = 1" by auto
    moreover have "startswith (rstrip_nl (?L ! (0 + 0))) (''-'' @ '' '')" by code_simp
    moreover have "startswith (rstrip_nl (?L ! (0 + 1))) (''-'' @ '' '')" by code_simp
    ultimately show "startswith (rstrip_nl (?L ! (0 + j))) (''-'' @ '' '')" by blast
  qed
  have h3: "0 + 2 < length ?L \<longrightarrow> \<not> startswith (rstrip_nl (?L ! (0 + 2))) (''-'' @ '' '')"
    by code_simp
  have e1: "[''<'' @ ''ul'' @ ''>''] @
            map (\<lambda>j. ''<li>'' @ parse_inline_formatting
                        (strip (drop (length (''-'' @ '' '')) (rstrip_nl (?L ! j)))) @ ''</li>'')
                [0..<0 + 2] @
            [''</'' @ ''ul'' @ ''>''] = [''<ul>'', ''<li>a</li>'', ''<li><em>b</em></li>'', ''</ul>'']"
    by code_simp
  have e2: "(if 0 + 2 < length ?L \<and> strip (rstrip_nl (?L ! (0 + 2))) = []
            then 0 + 2 + 1 else 0 + 2) = (3::nat)"
    by code_simp
  from C8_list_block_collection [OF h1 h2 h3, of "''ul''" "[]"]
  show ?thesis unfolding e1 e2 by simp
qed

text \<open>
  Claim C10. When the line at \<open>start\<close> begins with the marker and a space, the fragment
  returned by \<open>process_list_block\<close> starts with the open tag, ends with the matching close
  tag, holds at least one \<open><li>\<close>...\<open></li>\<close> item and nothing but such items between
  them, and the returned cursor is beyond \<open>start\<close> and within the input.
\<close>

theorem C10_list_block_well_formed:
  assumes "start < length lines"
    and "startswith (rstrip_nl (lines ! start)) (list_char @ '' '')"
  shows "hd (fst (process_list_block lines start list_char list_tag)) = ''<'' @ list_tag @ ''>''
       \<and> last (fst (process_list_block lines start list_char list_tag)) = ''</'' @ list_tag @ ''>''
       \<and> 3 \<le> length (fst (process_list_block lines start list_char list_tag))
       \<and> (\<forall>x \<in> set (butlast (tl (fst (process_list_block lines start list_char list_tag)))).
             \<exists>t. x = ''<li>'' @ t @ ''</li>'')
       \<and> start < snd (process_list_block lines start list_char list_tag)
       \<and> snd (process_list_block lines start list_char list_tag) \<le> length lines"
proof -
  let ?R = "process_list_loop lines list_char [''<'' @ list_tag @ ''>''] start"
  from assms(1) have "start \<le> length lines" by simp
  from process_list_loop_shape [OF this, of list_char "[''<'' @ list_tag @ ''>'']"] assms
  obtain items where it: "fst ?R = [''<'' @ list_tag @ ''>''] @ items"
      "\<forall>x \<in> set items. \<exists>t. x = ''<li>'' @ t @ ''</li>''"
      "snd ?R \<le> length lines" "items \<noteq> []" "start < snd ?R"
    by blast
  have blk: "process_list_block lines start list_char list_tag
             = ((''<'' @ list_tag @ ''>'') # items @ [''</'' @ list_tag @ ''>''], snd ?R)"
    using it(1) by (cases ?R) (simp add: process_list_block_def)
  from it(4) obtain y ys where "items = y # ys" by (cases items) auto
  with it(2,3,5) show ?thesis unfolding blk by (simp add: butlast_append)
qed

theorem C10_list_block_well_formed_witness:
  "process_list_block [''* one'', ''text''] 0 ''*'' ''ol'' = ([''<ol>'', ''<li>one</li>'', ''</ol>''], 1)
   \<and> hd (fst (process_list_block [''* one'', ''text''] 0 ''*'' ''ol'')) = ''<ol>''
   \<and> last (fst (process_list_block [''* one'', ''text''] 0 ''*'' ''ol'')) = ''</ol>''
   \<and> 0 < snd (process_list_block [''* one'', ''text''] 0 ''*'' ''ol'')"
proof -
  have h1: "0 < length [''* one'', ''text'']" by simp
  have h2: "startswith (rstrip_nl ([''* one'', ''text''] ! 0)) (''*'' @ '' '')" by code_simp
  have e: "process_list_block [''* one'', ''text''] 0 ''*'' ''ol''
           = ([''<ol>'', ''<li>one</li>'', ''</ol>''], 1)" by code_simp
  from C10_list_block_well_formed [OF h1 h2, of "''ol''"] e show ?thesis by simp
qed

section \<open>Lines that start with \<open>#\<close> and are not headers\<close>

text \<open>
  The header branch rejects a line whose \<open>#\<close> run is longer than six or is not followed
  by a space, and control reaches the paragraph branch. The paragraph loop stops on every
  line that starts with \<open>#\<close>, so it stops at once on this very line: an empty paragraph
  is appended and the cursor is where it was.
\<close>

lemma rejected_header_step:
  assumes "startswith (rstrip_nl (lines ! i)) ''#''" and "\<not> is_header (rstrip_nl (lines ! i))"
    and "i < length lines"
  shows "main_step lines i html = (i, html @ [''<p></p>''])"
proof -
  define line where "line = rstrip_nl (lines ! i)"
  from assms(1) obtain t where t: "line = CHR ''#'' # t"
    unfolding line_def by (cases "rstrip_nl (lines ! i)") (auto simp: startswith_def)
  then have "CHR ''#'' \<in> set line" by simp
  then have ne: "strip line \<noteq> []" using not_space_markers(3) by (rule strip_nonempty)
  from t have nl: "\<not> startswith line ''- ''" "\<not> startswith line ''* ''"
    by (simp_all add: startswith_def)
  have cp: "collect_paragraph lines [] i = ([], i)"
    using assms(1,3) by (subst collect_paragraph.simps) simp
  show ?thesis
    using ne nl assms(2) cp unfolding main_step_def Let_def line_def [symmetric]
    by simp
qed

text \<open>
  Claim C2. The lines \<open># Title\<close> and \<open>###### Deep\<close> are rendered as \<open><h1>Title</h1>\<close> and
  \<open><h6>Deep</h6>\<close>. A line that starts with \<open>#\<close> and fails the header test does reach
  the paragraph branch, but it is never rendered as a paragraph: each pass through the
  loop body appends \<open><p></p>\<close> and leaves the cursor on the line, and the conversion
  never returns. The witness is a line with seven leading \<open>#\<close>.
\<close>

theorem C2_rejected_header_never_rendered:
  assumes "i < length lines"
    and "startswith (rstrip_nl (lines ! i)) ''#''"
    and "\<not> is_header (rstrip_nl (lines ! i))"
  shows "main_step lines i html = (i, html @ [''<p></p>''])
       \<and> main_loop lines i html = None
       \<and> convert_markdown_to_html [''# Title''] = Some (''<h1>Title</h1>'' @ [CHR 0x0A])
       \<and> convert_markdown_to_html [''###### Deep''] = Some (''<h6>Deep</h6>'' @ [CHR 0x0A])"
proof -
  have st: "main_step lines i h = (i, h @ [''<p></p>''])" for h
    using assms(2,3,1) by (rule rejected_header_step)
  have "main_loop lines i html = None"
    using assms(1) by (rule main_loop_stuck) (simp add: st)
  moreover have "convert_markdown_to_html [''# Title''] = Some (''<h1>Title</h1>'' @ [CHR 0x0A])"
    by code_simp
  moreover have "convert_markdown_to_html [''###### Deep''] = Some (''<h6>Deep</h6>'' @ [CHR 0x0A])"
    by code_simp
  ultimately show ?thesis using st by blast
qed

theorem C2_seven_hashes_witness:
  "main_step [''####### Seven''] 0 [] = (0, [''<p></p>''])
   \<and> main_loop [''####### Seven''] 0 [] = None
   \<and> convert_markdown_to_html [''####### Seven''] = None"
proof -
  have h1: "0 < length [''####### Seven'']" by simp
  have h2: "startswith (rstrip_nl ([''####### Seven''] ! 0)) ''#''" by code_simp
  have h3: "\<not> is_header (rstrip_nl ([''####### Seven''] ! 0))" by code_simp
  from C2_rejected_header_never_rendered [OF h1 h2 h3, of "[]"]
  show ?thesis by (simp add: convert_markdown_to_html_def)
qed

lemma run_steps_stuck:
  assumes "i < length lines" and "\<And>h. main_step lines i h = (i, h @ [p])"
  shows "run_steps n lines (i, html) = (i, html @ replicate n p)"
proof (induction n arbitrary: html)
  case 0
  show ?case by simp
next
  case (Suc n)
  have "run_steps (Suc n) lines (i, html) = run_steps n lines (i, html @ [p])"
    using assms by simp
  also have "\<dots> = (i, (html @ [p]) @ replicate n p)" by (rule Suc.IH)
  finally show ?case by simp
qed

text \<open>
  Claim C7. On the input \<open>ok\<close>, \<open>#x\<close>, \<open>tail\<close> the first pass consumes line 0 as a
  paragraph; from then on the cursor stays on line 1 for any number of passes, each pass
  appending an empty paragraph. Line 1 is never consumed, line 2 is never reached, and
  the conversion never returns.
\<close>

theorem C7_line_never_consumed:
  "run_steps (Suc n) [''ok'', ''#x'', ''tail''] (0, []) = (1, ''<p>ok</p>'' # replicate n ''<p></p>'')
   \<and> convert_markdown_to_html [''ok'', ''#x'', ''tail''] = None"
proof -
  let ?L = "[''ok'', ''#x'', ''tail'']"
  have s0: "main_step ?L 0 [] = (1, [''<p>ok</p>''])" by code_simp
  have lt: "1 < length ?L" by simp
  have sw: "startswith (rstrip_nl (?L ! 1)) ''#''" by code_simp
  have nh: "\<not> is_header (rstrip_nl (?L ! 1))" by code_simp
  have st: "main_step ?L 1 h = (1, h @ [''<p></p>''])" for h
    using sw nh lt by (rule rejected_header_step)
  have "run_steps (Suc n) ?L (0, []) = run_steps n ?L (1, [''<p>ok</p>''])"
    using s0 by simp
  also have "\<dots> = (1, [''<p>ok</p>''] @ replicate n ''<p></p>'')"
    using lt st by (rule run_steps_stuck)
  finally have a: "run_steps (Suc n) ?L (0, []) = (1, ''<p>ok</p>'' # replicate n ''<p></p>'')"
    by simp
  have "fst (main_step ?L 1 []) = 1" by (simp only: st fst_conv)
  with lt have "main_loop ?L 1 [''<p>ok</p>''] = None"
    by (rule main_loop_stuck)
  then have "main_loop ?L 0 [] = None"
    using s0 by (subst main_loop.simps) simp
  then have b: "convert_markdown_to_html ?L = None"
    by (simp add: convert_markdown_to_html_def)
  from a b show ?thesis by blast
qed

section \<open>Progress of the main loop on every other line\<close>

text \<open>
  The cursor never moves back and never passes the end of the input. On a line that is not
  a rejected header each pass through the loop body moves it forward, so an input without
  such a line is converted in finitely many passes: the rejected header is the only way
  for the main loop not to return.
\<close>

lemma collect_paragraph_shape:
  "i \<le> length lines \<Longrightarrow>
   i \<le> snd (collect_paragraph lines acc i)
   \<and> snd (collect_paragraph lines acc i) \<le> length lines
   \<and> (i < length lines \<and> strip (rstrip_nl (lines ! i)) \<noteq> []
        \<and> \<not> startswith (rstrip_nl (lines ! i)) ''#''
        \<and> \<not> startswith (rstrip_nl (lines ! i)) ''- ''
        \<and> \<not> startswith (rstrip_nl (lines ! i)) ''* ''
        \<longrightarrow> i < snd (collect_paragraph lines acc i))"
proof (induction lines acc i rule: collect_paragraph.induct)
  case (1 lines acc i)
  show ?case
  proof (cases "i < length lines")
    case False
    with "1.prems" show ?thesis by (subst (1 2 3) collect_paragraph.simps) simp
  next
    case lt: True
    show ?thesis
    proof (cases "strip (rstrip_nl (lines ! i)) = [] \<or> startswith (rstrip_nl (lines ! i)) ''#'' \<or>
            startswith (rstrip_nl (lines ! i)) ''- '' \<or> startswith (rstrip_nl (lines ! i)) ''* ''")
      case True
      with lt show ?thesis by (subst (1 2 3) collect_paragraph.simps) auto
    next
      case False
      have unf: "collect_paragraph lines acc i
                 = collect_paragraph lines (acc @ [rstrip_nl (lines ! i)]) (i + 1)"
        using lt False by (subst collect_paragraph.simps) simp
      from lt have "i + 1 \<le> length lines" by simp
      from "1.IH" [OF lt False this] show ?thesis unfolding unf by simp
    qed
  qed
qed

lemma main_step_cursor:
  assumes "i < length lines"
  shows "i \<le> fst (main_step lines i html) \<and> fst (main_step lines i html) \<le> length lines
       \<and> (\<not> (startswith (rstrip_nl (lines ! i)) ''#'' \<and> \<not> is_header (rstrip_nl (lines ! i)))
            \<longrightarrow> i < fst (main_step lines i html))"
proof -
  define line where "line = rstrip_nl (lines ! i)"
  from assms have le: "i \<le> length lines" by simp
  consider (blank) "strip line = []"
    | (header) "strip line \<noteq> []" "is_header line"
    | (ul) "strip line \<noteq> []" "\<not> is_header line" "startswith line ''- ''"
    | (ol) "strip line \<noteq> []" "\<not> is_header line" "\<not> startswith line ''- ''" "startswith line ''* ''"
    | (par) "strip line \<noteq> []" "\<not> is_header line" "\<not> startswith line ''- ''" "\<not> startswith line ''* ''"
    by blast
  then show ?thesis
  proof cases
    case blank
    with assms show ?thesis unfolding main_step_def Let_def line_def [symmetric] by simp
  next
    case header
    with assms show ?thesis unfolding main_step_def Let_def line_def [symmetric] by simp
  next
    case ul
    from process_list_loop_shape [OF le, of "''-''" "[''<ul>'']"] ul(3)
    have "i < snd (process_list_loop lines ''-'' [''<ul>''] i)"
      "snd (process_list_loop lines ''-'' [''<ul>''] i) \<le> length lines"
      using assms unfolding line_def by auto
    then show ?thesis
      using main_step_ul [of lines i html] ul(3) unfolding line_def
      by (cases "process_list_loop lines ''-'' [''<ul>''] i") (simp add: process_list_block_def)
  next
    case ol
    from process_list_loop_shape [OF le, of "''*''" "[''<ol>'']"] ol(4)
    have "i < snd (process_list_loop lines ''*'' [''<ol>''] i)"
      "snd (process_list_loop lines ''*'' [''<ol>''] i) \<le> length lines"
      using assms unfolding line_def by auto
    then show ?thesis
      using main_step_ol [of lines i html] ol(4) unfolding line_def
      by (cases "process_list_loop lines ''*'' [''<ol>''] i") (simp add: process_list_block_def)
  next
    case par
    from collect_paragraph_shape [OF le, of "[]"]
    have cp: "i \<le> snd (collect_paragraph lines [] i)"
      "snd (collect_paragraph lines [] i) \<le> length lines"
      "\<not> startswith line ''#'' \<Longrightarrow> i < snd (collect_paragraph lines [] i)"
      using par assms unfolding line_def by auto
    have "fst (main_step lines i html) = snd (collect_paragraph lines [] i)"
      using par unfolding main_step_def Let_def line_def [symmetric]
      by (cases "collect_paragraph lines [] i") simp
    with cp par(2) show ?thesis unfolding line_def by auto
  qed
qed


lemma main_loop_returns:
  assumes "\<forall>j < length lines. \<not> (startswith (rstrip_nl (lines ! j)) ''#''
                                  \<and> \<not> is_header (rstrip_nl (lines ! j)))"
  shows "\<exists>r. main_loop lines i html = Some r"
proof (induction "length lines - i" arbitrary: i html rule: less_induct)
  case less
  show ?case
  proof (cases "i < length lines")
    case False
    then show ?thesis by (subst main_loop.simps) simp
  next
    case True
    obtain i' h' where st: "main_step lines i html = (i', h')"
      by (cases "main_step lines i html") auto
    from main_step_cursor [OF True, of html] assms True st
    have "i < i'" by auto
    then have "length lines - i' < length lines - i" using True by simp
    from less [OF this] obtain r where "main_loop lines i' h' = Some r" by blast
    then show ?thesis using True st by (subst main_loop.simps) simp
  qed
qed

end
